theory Spec2Isabelle
  imports Main "HOL-Library.AList" "HOL-Library.Sublist"
begin

section \<open>The document store\<close>

text \<open>
  A document is its \<open>_id\<close> together with the rest of its fields, which the program never
  inspects. A collection lists its documents in the store's natural order, a database
  lists its collections by name in the order \<open>list_collection_names\<close> reports them.
\<close>

type_synonym ('i, 'p) document = "'i \<times> 'p"
type_synonym ('i, 'p) collection = "('i, 'p) document list"
type_synonym ('i, 'p) database = "(string \<times> ('i, 'p) collection) list"



definition list_collection_names :: "('i, 'p) database \<Rightarrow> string list" where
  "list_collection_names db = map fst db"

text \<open>\<open>db[name].find({})\<close>: a handle on a collection that does not exist reads as empty.\<close>

definition find_docs :: "('i, 'p) database \<Rightarrow> string \<Rightarrow> ('i, 'p) collection" where
  "find_docs db c = (case map_of db c of None \<Rightarrow> [] | Some ds \<Rightarrow> ds)"

definition find_ids :: "('i, 'p) database \<Rightarrow> string \<Rightarrow> 'i list" where
  "find_ids db c = map fst (find_docs db c)"

definition count_documents :: "('i, 'p) database \<Rightarrow> string \<Rightarrow> int" where
  "count_documents db c = int (length (find_docs db c))"

text \<open>\<open>count_documents({"_id": i}, limit=1)\<close>\<close>

definition count_by_id :: "('i, 'p) database \<Rightarrow> string \<Rightarrow> 'i \<Rightarrow> int" where
  "count_by_id db c i = (if i \<in> set (find_ids db c) then 1 else 0)"

text \<open>
  \<open>replace_one({"_id": i}, doc, upsert=True)\<close> replaces the first document with that id
  in place, or inserts the document at the end; writing to a collection that does not
  exist creates it.
\<close>

definition replace_one :: "('i, 'p) database \<Rightarrow> string \<Rightarrow> ('i, 'p) document \<Rightarrow> ('i, 'p) database" where
  "replace_one db c doc = AList.update c (AList.update (fst doc) (snd doc) (find_docs db c)) db"

text \<open>\<open>delete_one({"_id": i})\<close> removes the first document with that id, if there is one.\<close>

definition delete_one :: "('i, 'p) database \<Rightarrow> string \<Rightarrow> 'i \<Rightarrow> ('i, 'p) database" where
  "delete_one db c i =
     (case map_of db c of None \<Rightarrow> db | Some ds \<Rightarrow> AList.update c (AList.delete_aux i ds) db)"

definition drop_collection :: "('i, 'p) database \<Rightarrow> string \<Rightarrow> ('i, 'p) database" where
  "drop_collection db c = AList.delete c db"

text \<open>\<open>coll_name.startswith("system.")\<close>\<close>

definition reserved :: "string \<Rightarrow> bool" where
  "reserved c = prefix ''system.'' c"

section \<open>Store operations, failures and the log\<close>

text \<open>
  Every call to the store may raise. \<open>PyMongoError\<close> is the driver's error class; any
  other exception a call raises is \<open>OtherException\<close>. \<open>TypeError\<close> is what Python itself
  raises when a value that cannot be hashed is put into a set or looked up in one; it is not
  a \<open>PyMongoError\<close>. The handlers of the program tell these apart.
\<close>

datatype exn = PyMongoError | TypeError | OtherException

datatype conn = Src | Dst

text \<open>
  The calls the program issues. Reading a cursor is the query (\<open>Find\<close>) followed by the
  retrieval of each document in turn (\<open>Fetch\<close>, with the document's position).
\<close>

datatype 'i op =
    ListCollectionNames conn
  | CountDocuments conn string
  | Find conn string
  | Fetch conn string nat
  | CountById string 'i
  | ReplaceOne string 'i
  | DeleteOne string 'i
  | DropCollection string

text \<open>The collection a call addresses.\<close>

fun op_collection :: "'i op \<Rightarrow> string option" where
  "op_collection (ListCollectionNames cn) = None"
| "op_collection (CountDocuments cn c) = Some c"
| "op_collection (Find cn c) = Some c"
| "op_collection (Fetch cn c k) = Some c"
| "op_collection (CountById c i) = Some c"
| "op_collection (ReplaceOne c i) = Some c"
| "op_collection (DeleteOne c i) = Some c"
| "op_collection (DropCollection c) = Some c"

text \<open>What is observable of a run: the calls issued, in order, and the log records.\<close>

datatype 'i event =
    Call "'i op"
  | Log_upsert_start
  | Log_processing string int
  | Log_upserted nat string
  | Log_error_processing string exn
  | Log_reconcile_start
  | Log_dropping string
  | Log_drop_failed string exn
  | Log_count_error string exn
  | Log_reconciling string int int
  | Log_deleted nat string
  | Log_reconcile_error exn
  | Log_completed

record ('i, 'p) world =
  dst_db :: "('i, 'p) database"
  events :: "'i event list"

text \<open>
  A fault plan says which calls raise, and what. A call that raises has no effect on
  the store. A computation returns the exception that escaped it, if any, and the state
  it left behind.
\<close>

type_synonym 'i faults = "'i op \<Rightarrow> exn option"

definition no_faults :: "'i faults" where
  "no_faults = (\<lambda>_. None)"

definition call :: "'i faults \<Rightarrow> 'i op \<Rightarrow> ('i, 'p) world \<Rightarrow> exn option \<times> ('i, 'p) world" where
  "call f opn w = (f opn, w\<lparr>events := events w @ [Call opn]\<rparr>)"

definition log :: "'i event \<Rightarrow> ('i, 'p) world \<Rightarrow> ('i, 'p) world" where
  "log ev w = w\<lparr>events := events w @ [ev]\<rparr>"

text \<open>Sequencing: an exception skips what follows.\<close>

definition and_then :: "exn option \<times> 's \<Rightarrow> ('s \<Rightarrow> exn option \<times> 's) \<Rightarrow> exn option \<times> 's" where
  "and_then r k = (case r of (None, s) \<Rightarrow> k s | (Some e, s) \<Rightarrow> (Some e, s))"

text \<open>\<open>for x in xs: body\<close>\<close>

fun for_each :: "('a \<Rightarrow> 's \<Rightarrow> exn option \<times> 's) \<Rightarrow> 'a list \<Rightarrow> 's \<Rightarrow> exn option \<times> 's" where
  "for_each body [] s = (None, s)"
| "for_each body (x # xs) s =
     (case body x s of (None, s') \<Rightarrow> for_each body xs s' | (Some e, s') \<Rightarrow> (Some e, s'))"

text \<open>\<open>try: ... except <class> as e: handler\<close>\<close>

definition try_except ::
  "(exn \<Rightarrow> bool) \<Rightarrow> exn option \<times> 's \<Rightarrow> (exn \<Rightarrow> 's \<Rightarrow> exn option \<times> 's) \<Rightarrow> exn option \<times> 's" where
  "try_except caught r handler =
     (case r of (None, s) \<Rightarrow> (None, s)
      | (Some e, s) \<Rightarrow> if caught e then handler e s else (Some e, s))"

definition is_PyMongoError :: "exn \<Rightarrow> bool" where
  "is_PyMongoError e = (e = PyMongoError)"

definition is_Exception :: "exn \<Rightarrow> bool" where
  "is_Exception e = True"

text \<open>\<open>list(cursor)\<close>: the query, then every document of the \<open>n\<close> it holds.\<close>

definition fetch_all :: "'i faults \<Rightarrow> conn \<Rightarrow> string \<Rightarrow> nat \<Rightarrow> ('i, 'p) world \<Rightarrow> exn option \<times> ('i, 'p) world" where
  "fetch_all f cn c n w =
     and_then (call f (Find cn c) w) (for_each (\<lambda>k. call f (Fetch cn c k)) [0..<n])"

section \<open>Python's view of the ids\<close>

text \<open>
  The in-memory branch of the reconciliation keeps the ids it has read in a Python \<open>set\<close>.
  A set hashes every value it is given and compares values with \<open>==\<close>, and neither is the
  store's notion of an id: \<open>hash\<close> raises \<open>TypeError\<close> on an id that is an embedded
  document (decoded as a \<open>dict\<close>), \<open>True == 1\<close> holds though the store keeps the ids
  \<open>true\<close> and \<open>1\<close> apart, and a NaN equals nothing, itself included. What Python makes of
  the ids of type \<open>'i\<close> is a parameter of the model: \<open>hashable py i\<close> says that \<open>hash(i)\<close>
  returns, \<open>py_eq py i j\<close> that a set holding \<open>j\<close> answers a lookup of \<open>i\<close>.
\<close>

record 'i python =
  hashable :: "'i \<Rightarrow> bool"
  py_eq :: "'i \<Rightarrow> 'i \<Rightarrow> bool"

text \<open>\<open>i in s\<close>, for a set \<open>s\<close> built from the values \<open>xs\<close> and a value \<open>i\<close> that can be hashed.\<close>

definition py_in :: "'i python \<Rightarrow> 'i \<Rightarrow> 'i list \<Rightarrow> bool" where
  "py_in py i xs = list_ex (py_eq py i) xs"

text \<open>\<open>hash(i)\<close>, as a computation: it returns nothing of interest or raises.\<close>

definition py_hash :: "'i python \<Rightarrow> 'i \<Rightarrow> 's \<Rightarrow> exn option \<times> 's" where
  "py_hash py i s = (if hashable py i then (None, s) else (Some TypeError, s))"

section \<open>Step A: incremental upsert\<close>

definition IN_MEMORY_ID_THRESHOLD :: int where
  "IN_MEMORY_ID_THRESHOLD = 200000"

text \<open>\<open>dst_coll.replace_one({"_id": doc["_id"]}, doc, upsert=True)\<close>\<close>

definition upsert_doc :: "'i faults \<Rightarrow> string \<Rightarrow> ('i, 'p) document \<Rightarrow> ('i, 'p) world \<Rightarrow> exn option \<times> ('i, 'p) world" where
  "upsert_doc f c doc w =
     and_then (call f (ReplaceOne c (fst doc)) w)
       (\<lambda>w. (None, w\<lparr>dst_db := replace_one (dst_db w) c doc\<rparr>))"

text \<open>The branch \<open>src_count <= IN_MEMORY_ID_THRESHOLD\<close>: read everything, then write.\<close>

definition upsert_materialize :: "'i faults \<Rightarrow> ('i, 'p) database \<Rightarrow> string \<Rightarrow> ('i, 'p) world \<Rightarrow> exn option \<times> ('i, 'p) world" where
  "upsert_materialize f src c w =
     (let source_docs = find_docs src c in
      and_then (fetch_all f Src c (length source_docs) w) (\<lambda>w.
      and_then (for_each (upsert_doc f c) source_docs w) (\<lambda>w.
      (None, log (Log_upserted (length source_docs) c) w))))"

text \<open>The other branch: write each document as the cursor yields it.\<close>

definition upsert_stream :: "'i faults \<Rightarrow> ('i, 'p) database \<Rightarrow> string \<Rightarrow> ('i, 'p) world \<Rightarrow> exn option \<times> ('i, 'p) world" where
  "upsert_stream f src c w =
     and_then (call f (Find Src c) w)
       (for_each (\<lambda>(k, doc) w. and_then (call f (Fetch Src c k) w) (upsert_doc f c doc))
          (enumerate 0 (find_docs src c)))"

text \<open>The body of the loop over the source's collections, from the \<open>try\<close> on.\<close>

definition upsert_collection :: "int \<Rightarrow> 'i faults \<Rightarrow> ('i, 'p) database \<Rightarrow> string \<Rightarrow> ('i, 'p) world \<Rightarrow> exn option \<times> ('i, 'p) world" where
  "upsert_collection thr f src c w =
     try_except is_PyMongoError
       (and_then (call f (CountDocuments Src c) w) (\<lambda>w.
          let src_count = count_documents src c in
          if src_count = 0 then (None, w)
          else
            let w = log (Log_processing c src_count) w in
            if src_count \<le> thr then upsert_materialize f src c w
            else upsert_stream f src c w))
       (\<lambda>e w. (None, log (Log_error_processing c e) w))"

definition incremental_upsert :: "int \<Rightarrow> 'i faults \<Rightarrow> ('i, 'p) database \<Rightarrow> ('i, 'p) world \<Rightarrow> exn option \<times> ('i, 'p) world" where
  "incremental_upsert thr f src w =
     and_then (call f (ListCollectionNames Src) (log Log_upsert_start w))
       (for_each (\<lambda>c w. if reserved c then (None, w) else upsert_collection thr f src c w)
          (list_collection_names src))"

section \<open>Step B: deletion reconciliation\<close>

text \<open>The \<open>try\<close> around \<open>dst_db.drop_collection(coll)\<close> catches every exception.\<close>

definition drop_one :: "'i faults \<Rightarrow> string \<Rightarrow> ('i, 'p) world \<Rightarrow> exn option \<times> ('i, 'p) world" where
  "drop_one f c w =
     try_except is_Exception
       (and_then (call f (DropCollection c) (log (Log_dropping c) w))
          (\<lambda>w. (None, w\<lparr>dst_db := drop_collection (dst_db w) c\<rparr>)))
       (\<lambda>e w. (None, log (Log_drop_failed c e) w))"

text \<open>
  The deletion loops carry the local counter \<open>deleted\<close> beside the world:
  \<open>dst_coll.delete_one({"_id": doc["_id"]}); deleted += 1\<close>.
\<close>

definition on_world ::
  "(('i, 'p) world \<Rightarrow> exn option \<times> ('i, 'p) world) \<Rightarrow> nat \<times> ('i, 'p) world \<Rightarrow> exn option \<times> nat \<times> ('i, 'p) world" where
  "on_world m s = (case m (snd s) of (r, w') \<Rightarrow> (r, (fst s, w')))"

definition delete_doc :: "'i faults \<Rightarrow> string \<Rightarrow> 'i \<Rightarrow> nat \<times> ('i, 'p) world \<Rightarrow> exn option \<times> nat \<times> ('i, 'p) world" where
  "delete_doc f c i s =
     and_then (on_world (call f (DeleteOne c i)) s)
       (\<lambda>s. (None, (fst s + 1, (snd s)\<lparr>dst_db := delete_one (dst_db (snd s)) c i\<rparr>)))"

text \<open>The end of either branch: the count of deletions is logged if the loop completed.\<close>

definition finish_deleted :: "string \<Rightarrow> exn option \<times> nat \<times> ('i, 'p) world \<Rightarrow> exn option \<times> ('i, 'p) world" where
  "finish_deleted c r =
     (case r of (None, s) \<Rightarrow> (None, log (Log_deleted (fst s) c) (snd s))
      | (Some e, s) \<Rightarrow> (Some e, snd s))"

text \<open>
  \<open>set(doc["_id"] for doc in src_coll.find({}, {"_id": 1}))\<close>: the query, then every id
  is read and put into the set, which hashes it.
\<close>

definition read_source_ids :: "'i python \<Rightarrow> 'i faults \<Rightarrow> string \<Rightarrow> 'i list \<Rightarrow> ('i, 'p) world \<Rightarrow> exn option \<times> ('i, 'p) world" where
  "read_source_ids py f c ids w =
     and_then (call f (Find Src c) w)
       (for_each (\<lambda>(k, i) w. and_then (call f (Fetch Src c k) w) (py_hash py i))
          (enumerate 0 ids))"

text \<open>
  The branch \<open>src_count <= IN_MEMORY_ID_THRESHOLD\<close>: the set of the source's ids is built
  first, then the destination's ids are read and each is looked up in the set, which hashes
  it and compares it with \<open>==\<close>. The \<open>TypeError\<close> of an id that cannot be hashed leaves
  the loop.
\<close>

definition reconcile_materialize :: "'i python \<Rightarrow> 'i faults \<Rightarrow> ('i, 'p) database \<Rightarrow> string \<Rightarrow> ('i, 'p) world \<Rightarrow> exn option \<times> ('i, 'p) world" where
  "reconcile_materialize py f src c w =
     (let source_ids = find_ids src c in
      and_then (read_source_ids py f c source_ids w) (\<lambda>w.
        and_then (call f (Find Dst c) w) (\<lambda>w.
          finish_deleted c
            (for_each (\<lambda>(k, i) s.
                 and_then (on_world (call f (Fetch Dst c k)) s) (\<lambda>s.
                 and_then (py_hash py i s) (\<lambda>s.
                   if \<not> py_in py i source_ids then delete_doc f c i s else (None, s))))
               (enumerate 0 (find_ids (dst_db w) c)) (0, w)))))"

text \<open>The other branch: one query on the source for each id of the destination.\<close>

definition reconcile_stream :: "'i faults \<Rightarrow> ('i, 'p) database \<Rightarrow> string \<Rightarrow> ('i, 'p) world \<Rightarrow> exn option \<times> ('i, 'p) world" where
  "reconcile_stream f src c w =
     and_then (call f (Find Dst c) w) (\<lambda>w.
       finish_deleted c
         (for_each (\<lambda>(k, i) s.
              and_then (on_world (call f (Fetch Dst c k)) s) (\<lambda>s.
              and_then (on_world (call f (CountById c i)) s) (\<lambda>s.
                if count_by_id src c i = 0 then delete_doc f c i s else (None, s))))
            (enumerate 0 (find_ids (dst_db w) c)) (0, w)))"

text \<open>
  The body of the loop over the collections found on both sides. Only the two counts sit
  in the inner \<open>try\<close>, whose handler logs and goes on to the next collection.
\<close>

definition reconcile_collection :: "'i python \<Rightarrow> int \<Rightarrow> 'i faults \<Rightarrow> ('i, 'p) database \<Rightarrow> string \<Rightarrow> ('i, 'p) world \<Rightarrow> exn option \<times> ('i, 'p) world" where
  "reconcile_collection py thr f src c w =
     (case and_then (call f (CountDocuments Src c) w) (call f (CountDocuments Dst c)) of
        (Some e, w) \<Rightarrow>
          if is_Exception e then (None, log (Log_count_error c e) w) else (Some e, w)
      | (None, w) \<Rightarrow>
          let src_count = count_documents src c;
              dst_count = count_documents (dst_db w) c;
              w = log (Log_reconciling c src_count dst_count) w
          in if src_count \<le> thr then reconcile_materialize py f src c w
             else reconcile_stream f src c w)"

text \<open>
  \<open>src_cols\<close> and \<open>dst_cols\<close> are Python sets, here duplicate-free lists of their elements.
  The order in which Python iterates a set is not determined by the program: \<open>set_iter\<close>
  gives it, and \<open>set_iter_ok\<close> says that it yields every element exactly once.
\<close>

definition set_iter_ok :: "(string list \<Rightarrow> string list) \<Rightarrow> bool" where
  "set_iter_ok set_iter = (\<forall>xs. set (set_iter xs) = set xs \<and> (distinct xs \<longrightarrow> distinct (set_iter xs)))"

definition reconcile_deletions ::
  "'i python \<Rightarrow> (string list \<Rightarrow> string list) \<Rightarrow> int \<Rightarrow> 'i faults \<Rightarrow> ('i, 'p) database \<Rightarrow> ('i, 'p) world \<Rightarrow> exn option \<times> ('i, 'p) world" where
  "reconcile_deletions py set_iter thr f src w =
     try_except is_PyMongoError
       (and_then (call f (ListCollectionNames Src) (log Log_reconcile_start w)) (\<lambda>w.
          let src_cols = remdups (filter (\<lambda>c. \<not> reserved c) (list_collection_names src)) in
          and_then (call f (ListCollectionNames Dst) w) (\<lambda>w.
            let dst_cols = remdups (filter (\<lambda>c. \<not> reserved c) (list_collection_names (dst_db w))) in
            and_then
              (for_each (drop_one f) (set_iter (filter (\<lambda>c. c \<notin> set src_cols) dst_cols)) w)
              (for_each (reconcile_collection py thr f src)
                 (set_iter (filter (\<lambda>c. c \<in> set src_cols) dst_cols))))))
       (\<lambda>e w. (None, log (Log_reconcile_error e) w))"

section \<open>Main\<close>

datatype phase = Upsert | Reconcile

text \<open>
  One destination: \<open>incremental_upsert(dst_client); reconcile_deletions(dst_client)\<close>.
  The fault plan of a run is given per destination (by position in \<open>dst_clients\<close>) and
  phase.
\<close>

definition sync_destination ::
  "'i python \<Rightarrow> (string list \<Rightarrow> string list) \<Rightarrow> int \<Rightarrow> (phase \<Rightarrow> 'i faults) \<Rightarrow> ('i, 'p) database \<Rightarrow> ('i, 'p) world \<Rightarrow> exn option \<times> ('i, 'p) world" where
  "sync_destination py set_iter thr F src w =
     and_then (incremental_upsert thr (F Upsert) src w)
       (reconcile_deletions py set_iter thr (F Reconcile) src)"

fun main_loop ::
  "'i python \<Rightarrow> (string list \<Rightarrow> string list) \<Rightarrow> int \<Rightarrow> (nat \<Rightarrow> phase \<Rightarrow> 'i faults) \<Rightarrow> ('i, 'p) database \<Rightarrow> nat \<Rightarrow>
   ('i, 'p) database list \<Rightarrow> 'i event list \<Rightarrow> exn option \<times> ('i, 'p) database list \<times> 'i event list" where
  "main_loop py set_iter thr F src k [] evs = (None, [], evs)"
| "main_loop py set_iter thr F src k (d # ds) evs =
     (case sync_destination py set_iter thr (F k) src \<lparr>dst_db = d, events = evs\<rparr> of
        (Some e, w) \<Rightarrow> (Some e, dst_db w # ds, events w)
      | (None, w) \<Rightarrow>
          (case main_loop py set_iter thr F src (Suc k) ds (events w) of
             (r, ds', evs') \<Rightarrow> (r, dst_db w # ds', evs')))"

definition main ::
  "'i python \<Rightarrow> (string list \<Rightarrow> string list) \<Rightarrow> int \<Rightarrow> (nat \<Rightarrow> phase \<Rightarrow> 'i faults) \<Rightarrow> ('i, 'p) database \<Rightarrow>
   ('i, 'p) database list \<Rightarrow> exn option \<times> ('i, 'p) database list \<times> 'i event list" where
  "main py set_iter thr F src dsts =
     (case main_loop py set_iter thr F src 0 dsts [] of
        (None, ds, evs) \<Rightarrow> (None, ds, evs @ [Log_completed])
      | (Some e, ds, evs) \<Rightarrow> (Some e, ds, evs))"

section \<open>The effects of a run\<close>

text \<open>
  Whatever the fault plan, a run changes a world only by appending an event, by
  replacing, deleting a document or by dropping a collection. \<open>reach A w w'\<close>: from
  \<open>w\<close>, effects that all satisfy \<open>A\<close> lead to \<open>w'\<close>.
\<close>

datatype ('i, 'p) action =
    Emit "'i event"
  | Replace string "('i, 'p) document"
  | Delete string 'i
  | Drop string

fun apply_action :: "('i, 'p) action \<Rightarrow> ('i, 'p) world \<Rightarrow> ('i, 'p) world" where
  "apply_action (Emit ev) w = w\<lparr>events := events w @ [ev]\<rparr>"
| "apply_action (Replace c d) w = w\<lparr>dst_db := replace_one (dst_db w) c d\<rparr>"
| "apply_action (Delete c i) w = w\<lparr>dst_db := delete_one (dst_db w) c i\<rparr>"
| "apply_action (Drop c) w = w\<lparr>dst_db := drop_collection (dst_db w) c\<rparr>"

inductive reach :: "(('i, 'p) action \<Rightarrow> bool) \<Rightarrow> ('i, 'p) world \<Rightarrow> ('i, 'p) world \<Rightarrow> bool"
  for A :: "('i, 'p) action \<Rightarrow> bool" where
  reach_refl: "reach A w w"
| reach_step: "reach A w w' \<Longrightarrow> A a \<Longrightarrow> reach A w (apply_action a w')"

text \<open>The collection an event is about, and the events that are calls removing data.\<close>

fun event_collection :: "'i event \<Rightarrow> string option" where
  "event_collection (Call opn) = op_collection opn"
| "event_collection (Log_processing c n) = Some c"
| "event_collection (Log_upserted n c) = Some c"
| "event_collection (Log_error_processing c e) = Some c"
| "event_collection (Log_dropping c) = Some c"
| "event_collection (Log_drop_failed c e) = Some c"
| "event_collection (Log_count_error c e) = Some c"
| "event_collection (Log_reconciling c m n) = Some c"
| "event_collection (Log_deleted n c) = Some c"
| "event_collection Log_upsert_start = None"
| "event_collection Log_reconcile_start = None"
| "event_collection (Log_reconcile_error e) = None"
| "event_collection Log_completed = None"

fun is_removal :: "'i event \<Rightarrow> bool" where
  "is_removal (Call (DeleteOne c i)) = True"
| "is_removal (Call (DropCollection c)) = True"
| "is_removal ev = False"

text \<open>What the upsert of collection \<open>c\<close> may do, and what its reconciliation may do.\<close>

fun upsert_action :: "('i, 'p) database \<Rightarrow> string \<Rightarrow> ('i, 'p) action \<Rightarrow> bool" where
  "upsert_action src c (Emit ev) = (event_collection ev = Some c \<and> \<not> is_removal ev)"
| "upsert_action src c (Replace c' d) = (c' = c \<and> d \<in> set (find_docs src c))"
| "upsert_action src c (Delete c' i) = False"
| "upsert_action src c (Drop c') = False"

fun reconcile_action :: "('i, 'p) database \<Rightarrow> string \<Rightarrow> ('i, 'p) action \<Rightarrow> bool" where
  "reconcile_action src c (Emit ev) = (event_collection ev = Some c)"
| "reconcile_action src c (Replace c' d) = False"
| "reconcile_action src c (Delete c' i) = (c' = c)"
| "reconcile_action src c (Drop c') = False"

fun drop_action :: "string \<Rightarrow> ('i, 'p) action \<Rightarrow> bool" where
  "drop_action c (Emit ev) = (event_collection ev = Some c)"
| "drop_action c (Drop c') = (c' = c)"
| "drop_action c a = False"

text \<open>What a whole phase may do.\<close>

definition upsert_phase_action :: "('i, 'p) database \<Rightarrow> ('i, 'p) action \<Rightarrow> bool" where
  "upsert_phase_action src a =
     (a = Emit Log_upsert_start \<or> a = Emit (Call (ListCollectionNames Src)) \<or>
      (\<exists>c \<in> set (list_collection_names src). \<not> reserved c \<and> upsert_action src c a))"

definition reconcile_phase_action :: "('i, 'p) database \<Rightarrow> ('i, 'p) action \<Rightarrow> bool" where
  "reconcile_phase_action src a =
     (a = Emit Log_reconcile_start \<or> a = Emit (Call (ListCollectionNames Src)) \<or>
      a = Emit (Call (ListCollectionNames Dst)) \<or> (\<exists>e. a = Emit (Log_reconcile_error e)) \<or>
      (\<exists>c. \<not> reserved c \<and> c \<notin> set (list_collection_names src) \<and> drop_action c a) \<or>
      (\<exists>c \<in> set (list_collection_names src). \<not> reserved c \<and> reconcile_action src c a))"

definition run_action :: "('i, 'p) database \<Rightarrow> ('i, 'p) action \<Rightarrow> bool" where
  "run_action src a = (upsert_phase_action src a \<or> reconcile_phase_action src a)"

text \<open>Nothing was removed between world \<open>w\<close> and world \<open>s\<close>, and no removing call was issued.\<close>

definition no_removal_since :: "('i, 'p) world \<Rightarrow> ('i, 'p) world \<Rightarrow> bool" where
  "no_removal_since w s =
     ((\<forall>c. set (find_ids (dst_db w) c) \<subseteq> set (find_ids (dst_db s) c)) \<and>
      set (list_collection_names (dst_db w)) \<subseteq> set (list_collection_names (dst_db s)) \<and>
      (\<exists>new. events s = events w @ new \<and> (\<forall>ev \<in> set new. \<not> is_removal ev)))"

definition reserved_kept :: "('i, 'p) database \<Rightarrow> ('i, 'p) database \<Rightarrow> bool" where
  "reserved_kept d d' = (\<forall>c. reserved c \<longrightarrow> map_of d' c = map_of d c)"

definition no_reserved_event :: "'i event list \<Rightarrow> bool" where
  "no_reserved_event evs = (\<forall>ev \<in> set evs. \<forall>c. event_collection ev = Some c \<longrightarrow> \<not> reserved c)"

definition upsert_docs_db :: "('i, 'p) database \<Rightarrow> string \<Rightarrow> ('i, 'p) document list \<Rightarrow> ('i, 'p) database" where
  "upsert_docs_db db c docs = foldl (\<lambda>db d. replace_one db c d) db docs"

definition upsert_db :: "('i, 'p) database \<Rightarrow> ('i, 'p) database \<Rightarrow> ('i, 'p) database" where
  "upsert_db src db =
     foldl (\<lambda>db c. if reserved c then db else upsert_docs_db db c (find_docs src c)) db
       (list_collection_names src)"

definition delete_missing_db :: "('i, 'p) database \<Rightarrow> string \<Rightarrow> ('i, 'p) database \<Rightarrow> ('i, 'p) database" where
  "delete_missing_db src c db =
     foldl (\<lambda>db i. if i \<in> set (find_ids src c) then db else delete_one db c i) db (find_ids db c)"

definition reconcile_db ::
  "(string list \<Rightarrow> string list) \<Rightarrow> ('i, 'p) database \<Rightarrow> ('i, 'p) database \<Rightarrow> ('i, 'p) database" where
  "reconcile_db set_iter src db =
     (let src_cols = remdups (filter (\<lambda>c. \<not> reserved c) (list_collection_names src));
          dst_cols = remdups (filter (\<lambda>c. \<not> reserved c) (list_collection_names db))
      in foldl (\<lambda>db c. delete_missing_db src c db)
           (foldl drop_collection db (set_iter (filter (\<lambda>c. c \<notin> set src_cols) dst_cols)))
           (set_iter (filter (\<lambda>c. c \<in> set src_cols) dst_cols)))"

definition sync_db ::
  "(string list \<Rightarrow> string list) \<Rightarrow> ('i, 'p) database \<Rightarrow> ('i, 'p) database \<Rightarrow> ('i, 'p) database" where
  "sync_db set_iter src db = reconcile_db set_iter src (upsert_db src db)"

definition ids_distinct :: "('i, 'p) database \<Rightarrow> bool" where
  "ids_distinct db = (\<forall>c. distinct (find_ids db c))"



section \<open>The strategy selector of the specification\<close>

text \<open>
  The specification names the two ways of processing a collection and the rule that chooses
  between them: \<open>MATERIALIZE\<close> if the count is at most the threshold, \<open>STREAM\<close> otherwise.
  The program has no such function; \<open>select_strategy\<close> is the specification's, to be
  compared with the tests the program makes.
\<close>

datatype strategy = MATERIALIZE | STREAM

definition select_strategy :: "int \<Rightarrow> int \<Rightarrow> strategy" where
  "select_strategy count threshold = (if count \<le> threshold then MATERIALIZE else STREAM)"

text \<open>Each engine of the specification, run with a given strategy, is a branch of the program.\<close>

definition upsert_with :: "strategy \<Rightarrow> 'i faults \<Rightarrow> ('i, 'p) database \<Rightarrow> string \<Rightarrow> ('i, 'p) world \<Rightarrow> exn option \<times> ('i, 'p) world" where
  "upsert_with st f src c w =
     (case st of MATERIALIZE \<Rightarrow> upsert_materialize f src c w | STREAM \<Rightarrow> upsert_stream f src c w)"

definition reconcile_with :: "strategy \<Rightarrow> 'i python \<Rightarrow> 'i faults \<Rightarrow> ('i, 'p) database \<Rightarrow> string \<Rightarrow> ('i, 'p) world \<Rightarrow> exn option \<times> ('i, 'p) world" where
  "reconcile_with st py f src c w =
     (case st of MATERIALIZE \<Rightarrow> reconcile_materialize py f src c w | STREAM \<Rightarrow> reconcile_stream f src c w)"

section \<open>Failures of the counting calls\<close>




section \<open>Fixtures\<close>

text \<open>
  Ids as the driver decodes them, and CPython's view of them: an embedded document becomes a
  \<open>dict\<close>, which cannot be hashed; \<open>bool\<close> is a subclass of \<open>int\<close>, so that \<open>True == 1\<close>
  and \<open>False == 0\<close>; every other pair of values of these kinds is equal in Python exactly
  when the two are the same id.
\<close>

datatype bson = BObjectId string | BInt int | BStr string | BBool bool | BNull
  | BDoc "(string \<times> bson) list"

fun bson_hashable :: "bson \<Rightarrow> bool" where
  "bson_hashable (BDoc kvs) = False"
| "bson_hashable i = True"

fun bson_eq :: "bson \<Rightarrow> bson \<Rightarrow> bool" where
  "bson_eq (BBool b) (BInt n) = (n = (if b then 1 else 0))"
| "bson_eq (BInt n) (BBool b) = (n = (if b then 1 else 0))"
| "bson_eq i j = (i = j)"

definition cpython :: "bson python" where
  "cpython = \<lparr>hashable = bson_hashable, py_eq = bson_eq\<rparr>"

text \<open>A small source and a destination that differs from it in every way the sync repairs.\<close>

definition example_src :: "(bson, string) database" where
  "example_src =
     [(''orders'', [(BInt 1, ''a''), (BInt 2, ''b''), (BInt 3, ''c'')]),
      (''system.js'', [(BInt 9, ''z'')]),
      (''empty'', [])]"

definition example_dst :: "(bson, string) database" where
  "example_dst =
     [(''orders'', [(BInt 4, ''d''), (BInt 2, ''x'')]),
      (''legacy'', [(BInt 1, ''q'')]),
      (''system.js'', [(BInt 8, ''y'')]),
      (''empty'', [(BInt 5, ''e'')])]"

text \<open>A smaller pair, and the order in which the fixtures iterate a set of names.\<close>

definition tiny_src :: "(bson, string) database" where
  "tiny_src = [(''a'', [(BInt 1, ''x'')]), (''system.js'', [(BInt 9, ''z'')])]"

definition tiny_dst :: "(bson, string) database" where
  "tiny_dst = [(''a'', [(BInt 2, ''y'')]), (''system.js'', [(BInt 8, ''y'')])]"



text \<open>
  A destination whose stale document has the id \<open>true\<close> where the source has the id \<open>1\<close>,
  and one whose stale document has an embedded document as its id.
\<close>

definition bool_dst :: "(bson, string) database" where
  "bool_dst = [(''a'', [(BBool True, ''y'')])]"

definition doc_dst :: "(bson, string) database" where
  "doc_dst = [(''a'', [(BDoc [(''tenant'', BInt 1)], ''y'')])]"

definition listing_order :: "string list \<Rightarrow> string list" where
  "listing_order xs = xs"

definition never_fails :: "nat \<Rightarrow> phase \<Rightarrow> 'i faults" where
  "never_fails k ph = no_faults"




section \<open>Properties of the store operations\<close>

lemma find_docs_replace_one:
  "find_docs (replace_one db c d) c' =
     (if c' = c then AList.update (fst d) (snd d) (find_docs db c) else find_docs db c')"
  by (simp add: find_docs_def replace_one_def update_conv')

lemma map_of_replace_one_other: "c' \<noteq> c \<Longrightarrow> map_of (replace_one db c d) c' = map_of db c'"
  by (simp add: replace_one_def update_conv')

lemma names_replace_one:
  "set (list_collection_names (replace_one db c d)) = insert c (set (list_collection_names db))"
  using dom_update [of c _ db] by (simp add: list_collection_names_def replace_one_def)

lemma find_docs_delete_one:
  "find_docs (delete_one db c i) c' =
     (if c' = c then AList.delete_aux i (find_docs db c) else find_docs db c')"
  by (simp add: find_docs_def delete_one_def update_conv' split: option.splits)

lemma map_of_delete_one_other: "c' \<noteq> c \<Longrightarrow> map_of (delete_one db c i) c' = map_of db c'"
  by (simp add: delete_one_def update_conv' split: option.splits)


lemma find_docs_drop_collection:
  "find_docs (drop_collection db c) c' = (if c' = c then [] else find_docs db c')"
  by (simp add: find_docs_def drop_collection_def delete_conv')

lemma map_of_drop_collection_other: "c' \<noteq> c \<Longrightarrow> map_of (drop_collection db c) c' = map_of db c'"
  by (simp add: drop_collection_def)



section \<open>Sequencing, loops and handlers\<close>

lemma and_then_None [simp]: "and_then (None, s) k = k s"
  by (simp add: and_then_def)

lemma and_then_Some [simp]: "and_then (Some e, s) k = (Some e, s)"
  by (simp add: and_then_def)

lemma for_each_inv:
  assumes "P s" and "\<And>x s. x \<in> set xs \<Longrightarrow> P s \<Longrightarrow> P (snd (body x s))"
  shows "P (snd (for_each body xs s))"
  using assms
proof (induction xs arbitrary: s)
  case Nil
  then show ?case by simp
next
  case (Cons x xs)
  obtain r s' where b: "body x s = (r, s')" by (cases "body x s")
  have "P s'" using Cons.prems(1) Cons.prems(2) [of x s] b by simp
  then show ?case using Cons.IH [of s'] Cons.prems(2) b by (cases r) simp_all
qed

lemma for_each_ok:
  assumes "\<And>x s. x \<in> set xs \<Longrightarrow> fst (body x s) = None"
  shows "fst (for_each body xs s) = None"
  using assms
proof (induction xs arbitrary: s)
  case Nil
  then show ?case by simp
next
  case (Cons x xs)
  obtain r s' where b: "body x s = (r, s')" by (cases "body x s")
  have "r = None" using Cons.prems [of x s] b by simp
  then show ?case using Cons.IH [of s'] Cons.prems b by simp
qed


section \<open>What a phase can do, whatever fails\<close>

lemma and_then_inv:
  assumes "P (snd r)" and "\<And>s. P s \<Longrightarrow> P (snd (k s))"
  shows "P (snd (and_then r k))"
  using assms by (cases r) (auto simp add: and_then_def split: option.splits)

lemma try_except_inv:
  assumes "P (snd r)" and "\<And>e s. P s \<Longrightarrow> P (snd (handler e s))"
  shows "P (snd (try_except caught r handler))"
  using assms by (cases r) (auto simp add: try_except_def split: option.splits)

lemma reach_trans: "reach A w' w'' \<Longrightarrow> reach A w w' \<Longrightarrow> reach A w w''"
proof (induction rule: reach.induct)
  case (reach_refl w)
  then show ?case by simp
next
  case (reach_step w w' a)
  then show ?case by (simp add: reach.reach_step)
qed

lemma reach_mono:
  assumes "reach A w w'" and "\<And>a. A a \<Longrightarrow> B a"
  shows "reach B w w'"
  using assms by (induction rule: reach.induct) (auto intro: reach.intros)

lemma reach_invariant:
  assumes "reach A w w'" and "P w" and "\<And>a s. A a \<Longrightarrow> P s \<Longrightarrow> P (apply_action a s)"
  shows "P w'"
  using assms by (induction rule: reach.induct) auto

lemma reach_and_then:
  assumes "reach A w0 (snd r)" and "\<And>s. reach A w0 s \<Longrightarrow> reach A w0 (snd (k s))"
  shows "reach A w0 (snd (and_then r k))"
  using assms by (rule and_then_inv)

lemma reach_try_except:
  assumes "reach A w0 (snd r)" and "\<And>e s. reach A w0 s \<Longrightarrow> reach A w0 (snd (handler e s))"
  shows "reach A w0 (snd (try_except caught r handler))"
  using assms by (rule try_except_inv)

lemma reach_for_each:
  assumes "reach A w0 s" and "\<And>x s. x \<in> set xs \<Longrightarrow> reach A w0 s \<Longrightarrow> reach A w0 (snd (body x s))"
  shows "reach A w0 (snd (for_each body xs s))"
  using assms by (rule for_each_inv)

lemma reach_call:
  assumes "reach A w0 w" and "A (Emit (Call opn))"
  shows "reach A w0 (snd (call f opn w))"
  using reach_step [OF assms] by (simp add: call_def)

lemma reach_log:
  assumes "reach A w0 w" and "A (Emit ev)"
  shows "reach A w0 (log ev w)"
  using reach_step [OF assms] by (simp add: log_def)

lemma reach_upsert_doc:
  assumes "reach A w0 w" and "A (Emit (Call (ReplaceOne c (fst d))))" and "A (Replace c d)"
  shows "reach A w0 (snd (upsert_doc f c d w))"
  unfolding upsert_doc_def
proof (rule reach_and_then)
  show "reach A w0 (snd (call f (ReplaceOne c (fst d)) w))"
    using assms(1,2) by (rule reach_call)
next
  fix s assume "reach A w0 s"
  from reach_step [OF this assms(3)]
  show "reach A w0 (snd (None, s\<lparr>dst_db := replace_one (dst_db s) c d\<rparr>))" by simp
qed

lemma reach_fetch_all:
  assumes "reach A w0 w" and "A (Emit (Call (Find cn c)))" and "\<And>k. A (Emit (Call (Fetch cn c k)))"
  shows "reach A w0 (snd (fetch_all f cn c n w))"
  unfolding fetch_all_def
  by (intro reach_and_then reach_for_each reach_call assms)

lemma reach_upsert_collection:
  assumes "reach (upsert_action src c) w0 w"
  shows "reach (upsert_action src c) w0 (snd (upsert_collection thr f src c w))"
proof -
  let ?A = "upsert_action src c"
  have mat: "reach ?A w0 (snd (upsert_materialize f src c s))" if "reach ?A w0 s" for s
    unfolding upsert_materialize_def Let_def
    by (intro reach_and_then reach_for_each reach_fetch_all reach_upsert_doc that)
      (simp_all add: reach_log)
  have str: "reach ?A w0 (snd (upsert_stream f src c s))" if "reach ?A w0 s" for s
    unfolding upsert_stream_def
  proof (intro reach_and_then reach_for_each reach_call that)
    show "?A (Emit (Call (Find Src c)))" by simp
  next
    fix x s assume x: "x \<in> set (enumerate 0 (find_docs src c))" and s: "reach ?A w0 s"
    obtain k d where kd: "x = (k, d)" by (cases x)
    have d: "d \<in> set (find_docs src c)" using x kd by (auto simp add: in_set_enumerate_eq)
    have "reach ?A w0 (snd (and_then (call f (Fetch Src c k) s) (upsert_doc f c d)))"
      by (intro reach_and_then reach_call reach_upsert_doc s) (simp_all add: d)
    then show "reach ?A w0 (snd ((case x of (k, doc) \<Rightarrow> \<lambda>w. and_then (call f (Fetch Src c k) w) (upsert_doc f c doc)) s))"
      by (simp add: kd)
  qed
  show ?thesis
    unfolding upsert_collection_def Let_def
  proof (intro reach_try_except reach_and_then reach_call assms)
    show "?A (Emit (Call (CountDocuments Src c)))" by simp
  next
    fix s assume s: "reach ?A w0 s"
    have l: "reach ?A w0 (log (Log_processing c (count_documents src c)) s)"
      using s by (rule reach_log) simp
    show "reach ?A w0 (snd (if count_documents src c = 0 then (None, s)
            else if count_documents src c \<le> thr
                 then upsert_materialize f src c (log (Log_processing c (count_documents src c)) s)
                 else upsert_stream f src c (log (Log_processing c (count_documents src c)) s)))"
      using s mat [OF l] str [OF l] by simp
  next
    fix e s assume s: "reach ?A w0 s"
    show "reach ?A w0 (snd (None, log (Log_error_processing c e) s))"
      using reach_log [OF s, of "Log_error_processing c e"] by simp
  qed
qed

lemma reach_incremental_upsert:
  "reach (upsert_phase_action src) w (snd (incremental_upsert thr f src w))"
proof -
  let ?A = "upsert_phase_action src"
  have start: "reach ?A w (log Log_upsert_start w)"
    by (rule reach_log [OF reach_refl]) (simp add: upsert_phase_action_def)
  show ?thesis
    unfolding incremental_upsert_def
  proof (intro reach_and_then reach_for_each reach_call start)
    show "?A (Emit (Call (ListCollectionNames Src)))" by (simp add: upsert_phase_action_def)
  next
    fix c s assume c: "c \<in> set (list_collection_names src)" and s: "reach ?A w s"
    show "reach ?A w (snd (if reserved c then (None, s) else upsert_collection thr f src c s))"
    proof (cases "reserved c")
      case True
      then show ?thesis using s by simp
    next
      case False
      have "reach (upsert_action src c) s (snd (upsert_collection thr f src c s))"
        by (rule reach_upsert_collection [OF reach_refl])
      then have "reach ?A s (snd (upsert_collection thr f src c s))"
        by (rule reach_mono) (use c False in \<open>auto simp add: upsert_phase_action_def\<close>)
      then show ?thesis using False reach_trans [OF _ s] by simp
    qed
  qed
qed

section \<open>The upsert phase removes nothing\<close>

lemma find_ids_replace_one:
  "set (find_ids (replace_one db c d) c') =
     (if c' = c then insert (fst d) (set (find_ids db c)) else set (find_ids db c'))"
  using dom_update [of "fst d" "snd d" "find_docs db c"]
  by (simp add: find_ids_def find_docs_replace_one)

lemma upsert_phase_actionE:
  assumes "upsert_phase_action src a"
  obtains ev where "a = Emit ev" and "\<not> is_removal ev"
      and "\<And>c. event_collection ev = Some c \<Longrightarrow> \<not> reserved c \<and> c \<in> set (list_collection_names src)"
    | c d where "a = Replace c d" and "\<not> reserved c" and "c \<in> set (list_collection_names src)"
      and "d \<in> set (find_docs src c)"
proof (cases a)
  case (Emit ev)
  then show ?thesis using assms that(1) [of ev]
    by (auto simp add: upsert_phase_action_def)
next
  case (Replace c d)
  then show ?thesis using assms that(2) [of c d]
    by (auto simp add: upsert_phase_action_def)
next
  case (Delete c i)
  then show ?thesis using assms by (auto simp add: upsert_phase_action_def)
next
  case (Drop c)
  then show ?thesis using assms by (auto simp add: upsert_phase_action_def)
qed

lemma no_removal_since_step:
  assumes "upsert_phase_action src a" and "no_removal_since w s"
  shows "no_removal_since w (apply_action a s)"
  using assms(1)
proof (cases rule: upsert_phase_actionE)
  case (1 ev)
  then show ?thesis using assms(2) by (auto simp add: no_removal_since_def)
next
  case (2 c d)
  then show ?thesis using assms(2)
    by (auto simp add: no_removal_since_def find_ids_replace_one names_replace_one)
qed

text \<open>
  C10. The upsert phase removes nothing from a destination, whatever calls fail: an id present in a
  collection before the phase is present in it afterwards, every collection that existed
  still exists, and the phase issues no \<open>delete_one\<close> and no \<open>drop_collection\<close>.
\<close>

theorem upsert_phase_removes_nothing:
  "(i \<in> set (find_ids (dst_db w) c) \<longrightarrow>
      i \<in> set (find_ids (dst_db (snd (incremental_upsert thr f src w))) c)) \<and>
   (c \<in> set (list_collection_names (dst_db w)) \<longrightarrow>
      c \<in> set (list_collection_names (dst_db (snd (incremental_upsert thr f src w))))) \<and>
   (\<forall>ev \<in> set (drop (length (events w)) (events (snd (incremental_upsert thr f src w)))).
      \<not> is_removal ev)"
proof -
  have "no_removal_since w (snd (incremental_upsert thr f src w))"
  proof (rule reach_invariant [OF reach_incremental_upsert])
    show "no_removal_since w w" by (simp add: no_removal_since_def)
  next
    fix a s assume "upsert_phase_action src a" and "no_removal_since w s"
    then show "no_removal_since w (apply_action a s)" by (rule no_removal_since_step)
  qed
  then show ?thesis by (auto simp add: no_removal_since_def)
qed

theorem upsert_phase_removes_nothing_witness:
  "BInt 4 \<in> set (find_ids (dst_db \<lparr>dst_db = example_dst, events = []\<rparr>) ''orders'') \<and>
   BInt 4 \<in> set (find_ids (dst_db (snd (incremental_upsert 2
        (no_faults(ReplaceOne ''orders'' (BInt 2) := Some PyMongoError)) example_src
        \<lparr>dst_db = example_dst, events = []\<rparr>))) ''orders'') \<and>
   ''legacy'' \<in> set (list_collection_names (dst_db (snd (incremental_upsert 2
        (no_faults(ReplaceOne ''orders'' (BInt 2) := Some PyMongoError)) example_src
        \<lparr>dst_db = example_dst, events = []\<rparr>))))"
  using upsert_phase_removes_nothing [of "BInt 4" "\<lparr>dst_db = example_dst, events = []\<rparr>" "''orders''" 2
      "no_faults(ReplaceOne ''orders'' (BInt 2) := Some PyMongoError)" example_src]
    upsert_phase_removes_nothing [of "BInt 4" "\<lparr>dst_db = example_dst, events = []\<rparr>" "''legacy''" 2
      "no_faults(ReplaceOne ''orders'' (BInt 2) := Some PyMongoError)" example_src]
  by (simp add: example_dst_def find_ids_def find_docs_def list_collection_names_def)

section \<open>Reserved collections\<close>

lemma reach_drop_one:
  assumes "reach (drop_action c) w0 w"
  shows "reach (drop_action c) w0 (snd (drop_one f c w))"
  unfolding drop_one_def
proof (intro reach_try_except reach_and_then reach_call reach_log assms)
  show "drop_action c (Emit (Log_dropping c))" by simp
  show "drop_action c (Emit (Call (DropCollection c)))" by simp
next
  fix s :: "('a, 'b) world" assume s: "reach (drop_action c) w0 s"
  have "drop_action c (Drop c :: ('a, 'b) action)" by simp
  from reach_step [OF s this]
  show "reach (drop_action c) w0 (snd (None, s\<lparr>dst_db := drop_collection (dst_db s) c\<rparr>))" by simp
next
  fix e s assume s: "reach (drop_action c) w0 s"
  show "reach (drop_action c) w0 (snd (None, log (Log_drop_failed c e) s))"
    using reach_log [OF s, of "Log_drop_failed c e"] by simp
qed

text \<open>The deletion loops: the world is the second component of the loop's state.\<close>

lemma reach_on_world:
  assumes "reach A w0 (snd s)" and "\<And>w. reach A w0 w \<Longrightarrow> reach A w0 (snd (m w))"
  shows "reach A w0 (snd (snd (on_world m s)))"
  using assms(2) [OF assms(1)] by (cases "m (snd s)") (simp add: on_world_def)

lemma reach_delete_doc:
  assumes "reach A w0 (snd s)" and "A (Emit (Call (DeleteOne c i)))" and "A (Delete c i)"
  shows "reach A w0 (snd (snd (delete_doc f c i s)))"
proof -
  let ?r = "on_world (call f (DeleteOne c i)) s"
  have r: "reach A w0 (snd (snd ?r))"
  proof (rule reach_on_world [OF assms(1)])
    fix w assume "reach A w0 w"
    then show "reach A w0 (snd (call f (DeleteOne c i) w))" using assms(2) by (rule reach_call)
  qed
  show ?thesis
  proof (cases "fst ?r")
    case None
    then have "delete_doc f c i s =
        (None, (fst (snd ?r) + 1, (snd (snd ?r))\<lparr>dst_db := delete_one (dst_db (snd (snd ?r))) c i\<rparr>))"
      by (cases ?r) (simp add: delete_doc_def)
    then show ?thesis using reach_step [OF r assms(3)] by simp
  next
    case (Some e)
    then have "delete_doc f c i s = ?r" by (cases ?r) (simp add: delete_doc_def)
    then show ?thesis using r by simp
  qed
qed

lemma reach_finish_deleted:
  assumes "reach A w0 (snd (snd r))" and "\<And>n. A (Emit (Log_deleted n c))"
  shows "reach A w0 (snd (finish_deleted c r))"
proof (cases "fst r")
  case None
  then have "finish_deleted c r = (None, log (Log_deleted (fst (snd r)) c) (snd (snd r)))"
    by (cases r) (simp add: finish_deleted_def)
  then show ?thesis using reach_log [OF assms(1) assms(2)] by simp
next
  case (Some e)
  then have "finish_deleted c r = (Some e, snd (snd r))"
    by (cases r) (simp add: finish_deleted_def)
  then show ?thesis using assms(1) by simp
qed

lemma reach_and_then_local:
  assumes "reach A w0 (snd (snd r))"
    and "\<And>s. reach A w0 (snd s) \<Longrightarrow> reach A w0 (snd (snd (k s)))"
  shows "reach A w0 (snd (snd (and_then r k)))"
  using assms by (rule and_then_inv [where P = "\<lambda>s. reach A w0 (snd s)"])

lemma reach_for_each_local:
  assumes "reach A w0 (snd s)"
    and "\<And>x s. x \<in> set xs \<Longrightarrow> reach A w0 (snd s) \<Longrightarrow> reach A w0 (snd (snd (body x s)))"
  shows "reach A w0 (snd (snd (for_each body xs s)))"
  using assms by (rule for_each_inv [where P = "\<lambda>s. reach A w0 (snd s)"])

lemma reach_delete_step:
  assumes s: "reach (reconcile_action src c) w0 (snd s)"
  shows "reach (reconcile_action src c) w0
     (snd (snd (if b then delete_doc f c i s else (None, s))))"
proof (cases b)
  case False
  then show ?thesis using s by simp
next
  case True
  have "reach (reconcile_action src c) w0 (snd (snd (delete_doc f c i s)))"
    by (rule reach_delete_doc [OF s]) simp_all
  then show ?thesis using True by simp
qed

lemma reach_py_hash: "reach A w0 s \<Longrightarrow> reach A w0 (snd (py_hash py i s))"
  by (simp add: py_hash_def)

lemma reach_py_hash_local:
  "reach A w0 (snd s) \<Longrightarrow> reach A w0 (snd (snd (py_hash py i s)))"
  by (simp add: py_hash_def)

lemma reach_read_source_ids:
  assumes "reach A w0 w" and "A (Emit (Call (Find Src c)))"
    and "\<And>k. A (Emit (Call (Fetch Src c k)))"
  shows "reach A w0 (snd (read_source_ids py f c ids w))"
  unfolding read_source_ids_def
proof (intro reach_and_then reach_for_each reach_call assms(1,2))
  fix x :: "nat \<times> 'a" and s :: "('a, 'b) world"
  assume s: "reach A w0 s"
  obtain k i where x: "x = (k, i)" by (cases x)
  have "reach A w0 (snd (and_then (call f (Fetch Src c k) s) (py_hash py i)))"
    by (intro reach_and_then reach_call reach_py_hash s assms(3))
  then show "reach A w0
      (snd ((case x of (k, i) \<Rightarrow> \<lambda>w. and_then (call f (Fetch Src c k) w) (py_hash py i)) s))"
    by (simp add: x)
qed

lemma reach_reconcile_materialize:
  assumes "reach (reconcile_action src c) w0 w"
  shows "reach (reconcile_action src c) w0 (snd (reconcile_materialize py f src c w))"
  unfolding reconcile_materialize_def Let_def
proof (intro reach_and_then reach_read_source_ids reach_call reach_finish_deleted
    reach_for_each_local assms)
  fix x :: "nat \<times> 'a" and s :: "nat \<times> ('a, 'b) world"
  assume s: "reach (reconcile_action src c) w0 (snd s)"
  obtain k i where x: "x = (k, i)" by (cases x)
  have "reach (reconcile_action src c) w0 (snd (snd (and_then (on_world (call f (Fetch Dst c k)) s)
      (\<lambda>s. and_then (py_hash py i s)
         (\<lambda>s. if \<not> py_in py i (find_ids src c) then delete_doc f c i s else (None, s))))))"
  proof (intro reach_and_then_local reach_on_world reach_call reach_py_hash_local s)
    show "reconcile_action src c (Emit (Call (Fetch Dst c k)))" by simp
  next
    fix s' :: "nat \<times> ('a, 'b) world" assume "reach (reconcile_action src c) w0 (snd s')"
    then show "reach (reconcile_action src c) w0
        (snd (snd (if \<not> py_in py i (find_ids src c) then delete_doc f c i s' else (None, s'))))"
      by (rule reach_delete_step)
  qed
  then show "reach (reconcile_action src c) w0
      (snd (snd ((case x of (k, i) \<Rightarrow> \<lambda>s. and_then (on_world (call f (Fetch Dst c k)) s)
         (\<lambda>s. and_then (py_hash py i s)
            (\<lambda>s. if \<not> py_in py i (find_ids src c) then delete_doc f c i s else (None, s)))) s)))"
    by (simp add: x)
qed simp_all

lemma reach_reconcile_stream:
  assumes "reach (reconcile_action src c) w0 w"
  shows "reach (reconcile_action src c) w0 (snd (reconcile_stream f src c w))"
  unfolding reconcile_stream_def
proof (intro reach_and_then reach_call reach_finish_deleted reach_for_each_local assms)
  fix x :: "nat \<times> 'a" and s :: "nat \<times> ('a, 'b) world"
  assume s: "reach (reconcile_action src c) w0 (snd s)"
  obtain k i where x: "x = (k, i)" by (cases x)
  have "reach (reconcile_action src c) w0 (snd (snd (and_then (on_world (call f (Fetch Dst c k)) s)
      (\<lambda>s. and_then (on_world (call f (CountById c i)) s)
         (\<lambda>s. if count_by_id src c i = 0 then delete_doc f c i s else (None, s))))))"
  proof (intro reach_and_then_local reach_on_world reach_call s)
    show "reconcile_action src c (Emit (Call (Fetch Dst c k)))" by simp
    show "reconcile_action src c (Emit (Call (CountById c i)))" by simp
  next
    fix s' :: "nat \<times> ('a, 'b) world" assume "reach (reconcile_action src c) w0 (snd s')"
    then show "reach (reconcile_action src c) w0
        (snd (snd (if count_by_id src c i = 0 then delete_doc f c i s' else (None, s'))))"
      by (rule reach_delete_step)
  qed
  then show "reach (reconcile_action src c) w0
      (snd (snd ((case x of (k, i) \<Rightarrow> \<lambda>s. and_then (on_world (call f (Fetch Dst c k)) s)
         (\<lambda>s. and_then (on_world (call f (CountById c i)) s)
           (\<lambda>s. if count_by_id src c i = 0 then delete_doc f c i s else (None, s)))) s)))"
    by (simp add: x)
qed simp_all

lemma reach_reconcile_collection:
  assumes "reach (reconcile_action src c) w0 w"
  shows "reach (reconcile_action src c) w0 (snd (reconcile_collection py thr f src c w))"
proof -
  let ?A = "reconcile_action src c"
  let ?r = "and_then (call f (CountDocuments Src c) w) (call f (CountDocuments Dst c))"
  have r: "reach ?A w0 (snd ?r)"
    by (intro reach_and_then reach_call assms) simp_all
  show ?thesis
  proof (cases "fst ?r")
    case (Some e)
    then have "reconcile_collection py thr f src c w = (None, log (Log_count_error c e) (snd ?r))"
      by (cases ?r) (simp add: reconcile_collection_def is_Exception_def)
    then show ?thesis using reach_log [OF r, of "Log_count_error c e"] by simp
  next
    case None
    let ?w = "log (Log_reconciling c (count_documents src c) (count_documents (dst_db (snd ?r)) c)) (snd ?r)"
    have w: "reach ?A w0 ?w" by (rule reach_log [OF r]) simp
    have "reconcile_collection py thr f src c w =
        (if count_documents src c \<le> thr then reconcile_materialize py f src c ?w
         else reconcile_stream f src c ?w)"
      using None by (cases ?r) (simp add: reconcile_collection_def Let_def)
    then show ?thesis
      using reach_reconcile_materialize [OF w] reach_reconcile_stream [OF w] by simp
  qed
qed

lemma reach_reconcile_deletions:
  assumes it: "set_iter_ok set_iter"
  shows "reach (reconcile_phase_action src) w (snd (reconcile_deletions py set_iter thr f src w))"
proof -
  let ?A = "reconcile_phase_action src"
  have sub: "set (set_iter xs) = set xs" for xs using it by (simp add: set_iter_ok_def)
  have start: "reach ?A w (log Log_reconcile_start w)"
    by (rule reach_log [OF reach_refl]) (simp add: reconcile_phase_action_def)
  show ?thesis
    unfolding reconcile_deletions_def Let_def
  proof (intro reach_try_except reach_and_then reach_for_each reach_call start)
    show "?A (Emit (Call (ListCollectionNames Src)))" by (simp add: reconcile_phase_action_def)
    show "?A (Emit (Call (ListCollectionNames Dst)))" by (simp add: reconcile_phase_action_def)
  next
    fix e s assume s: "reach ?A w s"
    show "reach ?A w (snd (None, log (Log_reconcile_error e) s))"
      using reach_log [OF s, of "Log_reconcile_error e"] by (simp add: reconcile_phase_action_def)
  next
    fix c s sa sb
    assume c: "c \<in> set (set_iter (filter
        (\<lambda>c. c \<notin> set (remdups (filter (\<lambda>c. \<not> reserved c) (list_collection_names src))))
        (remdups (filter (\<lambda>c. \<not> reserved c) (list_collection_names (dst_db sa))))))"
      and s: "reach ?A w (s :: ('a, 'b) world)"
    from c have c': "\<not> reserved c" "c \<notin> set (list_collection_names src)" by (auto simp add: sub)
    have "reach (drop_action c) s (snd (drop_one f c s))" by (rule reach_drop_one [OF reach_refl])
    then have "reach ?A s (snd (drop_one f c s))"
      by (rule reach_mono) (use c' in \<open>auto simp add: reconcile_phase_action_def\<close>)
    then show "reach ?A w (snd (drop_one f c s))" using s by (rule reach_trans)
  next
    fix c s sa sb
    assume c: "c \<in> set (set_iter (filter
        (\<lambda>c. c \<in> set (remdups (filter (\<lambda>c. \<not> reserved c) (list_collection_names src))))
        (remdups (filter (\<lambda>c. \<not> reserved c) (list_collection_names (dst_db sa))))))"
      and s: "reach ?A w (s :: ('a, 'b) world)"
    from c have c': "\<not> reserved c" "c \<in> set (list_collection_names src)" by (auto simp add: sub)
    have "reach (reconcile_action src c) s (snd (reconcile_collection py thr f src c s))"
      by (rule reach_reconcile_collection [OF reach_refl])
    then have "reach ?A s (snd (reconcile_collection py thr f src c s))"
      by (rule reach_mono) (use c' in \<open>auto simp add: reconcile_phase_action_def\<close>)
    then show "reach ?A w (snd (reconcile_collection py thr f src c s))" using s by (rule reach_trans)
  qed
qed

lemma reach_sync_destination:
  assumes "set_iter_ok set_iter"
  shows "reach (run_action src) w (snd (sync_destination py set_iter thr F src w))"
  unfolding sync_destination_def
proof (rule reach_and_then)
  show "reach (run_action src) w (snd (incremental_upsert thr (F Upsert) src w))"
    by (rule reach_mono [OF reach_incremental_upsert]) (simp add: run_action_def)
next
  fix s assume s: "reach (run_action src) w s"
  have "reach (run_action src) s (snd (reconcile_deletions py set_iter thr (F Reconcile) src s))"
    by (rule reach_mono [OF reach_reconcile_deletions [OF assms]]) (simp add: run_action_def)
  then show "reach (run_action src) w (snd (reconcile_deletions py set_iter thr (F Reconcile) src s))"
    using s by (rule reach_trans)
qed

text \<open>From one destination to the run over all of them.\<close>

lemma main_loop_all:
  assumes step: "\<And>k d evs. E evs \<Longrightarrow> G d \<Longrightarrow>
        E (events (snd (sync_destination py set_iter thr (F k) src \<lparr>dst_db = d, events = evs\<rparr>))) \<and>
        D d (dst_db (snd (sync_destination py set_iter thr (F k) src \<lparr>dst_db = d, events = evs\<rparr>)))"
    and refl: "\<And>d. G d \<Longrightarrow> D d d"
    and "E evs" and "list_all G ds"
  shows "E (snd (snd (main_loop py set_iter thr F src k ds evs))) \<and>
         list_all2 D ds (fst (snd (main_loop py set_iter thr F src k ds evs)))"
  using assms(3,4)
proof (induction ds arbitrary: k evs)
  case Nil
  then show ?case by simp
next
  case (Cons d ds)
  let ?r = "sync_destination py set_iter thr (F k) src \<lparr>dst_db = d, events = evs\<rparr>"
  obtain x w where r: "?r = (x, w)" by (cases ?r)
  have G: "G d" "list_all G ds" using Cons.prems(2) by simp_all
  have w: "E (events w)" "D d (dst_db w)" using step [OF Cons.prems(1) G(1), of k] r by simp_all
  have rest: "list_all2 D ds ds" using G(2) refl by (induction ds) simp_all
  show ?case
  proof (cases x)
    case (Some e)
    then show ?thesis using r w rest by simp
  next
    case None
    obtain y ds' evs' where m: "main_loop py set_iter thr F src (Suc k) ds (events w) = (y, ds', evs')"
      by (cases "main_loop py set_iter thr F src (Suc k) ds (events w)")
    from Cons.IH [OF w(1) G(2), of "Suc k"] m have "E evs'" "list_all2 D ds ds'" by simp_all
    then show ?thesis using r None m w by simp
  qed
qed

lemma run_action_not_reserved:
  assumes "run_action src a"
  shows "case a of
      Emit ev \<Rightarrow> (\<forall>c. event_collection ev = Some c \<longrightarrow> \<not> reserved c)
    | Replace c d \<Rightarrow> \<not> reserved c
    | Delete c i \<Rightarrow> \<not> reserved c
    | Drop c \<Rightarrow> \<not> reserved c"
  using assms
  by (cases a)
    (auto simp add: run_action_def upsert_phase_action_def reconcile_phase_action_def)

lemma reserved_step:
  assumes "run_action src a"
    and "no_reserved_event (events s) \<and> reserved_kept d (dst_db s)"
  shows "no_reserved_event (events (apply_action a s)) \<and> reserved_kept d (dst_db (apply_action a s))"
proof (cases a)
  case (Emit ev)
  then show ?thesis using run_action_not_reserved [OF assms(1)] assms(2)
    by (auto simp add: no_reserved_event_def)
next
  case (Replace c x)
  then have "\<not> reserved c" using run_action_not_reserved [OF assms(1)] by simp
  then have "reserved c' \<Longrightarrow> map_of (replace_one (dst_db s) c x) c' = map_of (dst_db s) c'" for c'
    by (intro map_of_replace_one_other) auto
  then show ?thesis using Replace assms(2) by (simp add: reserved_kept_def)
next
  case (Delete c i)
  then have "\<not> reserved c" using run_action_not_reserved [OF assms(1)] by simp
  then have "reserved c' \<Longrightarrow> map_of (delete_one (dst_db s) c i) c' = map_of (dst_db s) c'" for c'
    by (intro map_of_delete_one_other) auto
  then show ?thesis using Delete assms(2) by (simp add: reserved_kept_def)
next
  case (Drop c)
  then have "\<not> reserved c" using run_action_not_reserved [OF assms(1)] by simp
  then have "reserved c' \<Longrightarrow> map_of (drop_collection (dst_db s) c) c' = map_of (dst_db s) c'" for c'
    by (intro map_of_drop_collection_other) auto
  then show ?thesis using Drop assms(2) by (simp add: reserved_kept_def)
qed

lemma sync_destination_reserved:
  assumes it: "set_iter_ok set_iter" and evs: "no_reserved_event evs"
  shows "no_reserved_event (events (snd (sync_destination py set_iter thr F src \<lparr>dst_db = d, events = evs\<rparr>))) \<and>
         reserved_kept d (dst_db (snd (sync_destination py set_iter thr F src \<lparr>dst_db = d, events = evs\<rparr>)))"
proof (rule reach_invariant [OF reach_sync_destination [OF it]])
  show "no_reserved_event (events \<lparr>dst_db = d, events = evs\<rparr>) \<and>
        reserved_kept d (dst_db \<lparr>dst_db = d, events = evs\<rparr>)"
    using evs by (simp add: reserved_kept_def)
next
  fix a and s :: "('a, 'b) world"
  assume "run_action src a"
    and "no_reserved_event (events s) \<and> reserved_kept d (dst_db s)"
  then show "no_reserved_event (events (apply_action a s)) \<and>
             reserved_kept d (dst_db (apply_action a s))"
    by (rule reserved_step)
qed

text \<open>
  C7. Whatever the source, the destinations, the threshold and the failures, no call of a
  run names a collection with the reserved prefix: none is counted, read, written,
  deleted from or dropped; and every reserved collection of every destination is after
  the run what it was before.
\<close>

theorem reserved_collections_untouched:
  assumes "set_iter_ok set_iter"
  shows "(\<forall>opn c. Call opn \<in> set (snd (snd (main py set_iter thr F src dsts))) \<and>
            op_collection opn = Some c \<longrightarrow> \<not> reserved c) \<and>
         list_all2 (\<lambda>d d'. \<forall>c. reserved c \<longrightarrow> map_of d' c = map_of d c)
           dsts (fst (snd (main py set_iter thr F src dsts)))"
proof -
  have "no_reserved_event (snd (snd (main_loop py set_iter thr F src 0 dsts []))) \<and>
        list_all2 reserved_kept dsts (fst (snd (main_loop py set_iter thr F src 0 dsts [])))"
  proof (rule main_loop_all [where G = "\<lambda>d. True"])
    show "no_reserved_event []" by (simp add: no_reserved_event_def)
    show "list_all (\<lambda>d. True) dsts" by (simp add: list_all_iff)
    show "reserved_kept d d" for d :: "('a, 'b) database" by (simp add: reserved_kept_def)
  next
    fix k and d :: "('a, 'b) database" and evs :: "'a event list"
    assume "no_reserved_event evs"
    with assms show "no_reserved_event (events (snd (sync_destination py set_iter thr (F k) src \<lparr>dst_db = d, events = evs\<rparr>))) \<and>
         reserved_kept d (dst_db (snd (sync_destination py set_iter thr (F k) src \<lparr>dst_db = d, events = evs\<rparr>)))"
      by (rule sync_destination_reserved)
  qed
  moreover obtain x ds evs where m: "main_loop py set_iter thr F src 0 dsts [] = (x, ds, evs)"
    by (cases "main_loop py set_iter thr F src 0 dsts []")
  ultimately have "no_reserved_event evs" and "list_all2 reserved_kept dsts ds" by simp_all
  moreover have "snd (snd (main py set_iter thr F src dsts)) = evs \<or>
      snd (snd (main py set_iter thr F src dsts)) = evs @ [Log_completed]"
    and "fst (snd (main py set_iter thr F src dsts)) = ds"
    using m by (cases x; simp add: main_def)+
  ultimately show ?thesis
    by (auto simp add: no_reserved_event_def reserved_kept_def [abs_def])
qed

theorem reserved_collections_untouched_witness:
  "set_iter_ok listing_order \<and>
   Call (CountDocuments Src ''a'') \<in> set (snd (snd (main cpython listing_order 2 never_fails tiny_src [tiny_dst]))) \<and>
   op_collection (CountDocuments Src ''a'' :: bson op) = Some ''a'' \<and>
   \<not> reserved ''a'' \<and>
   list_all2 (\<lambda>d d'. \<forall>c. reserved c \<longrightarrow> map_of d' c = map_of d c) [tiny_dst]
     (fst (snd (main cpython listing_order 2 never_fails tiny_src [tiny_dst])))"
proof -
  have h: "set_iter_ok listing_order" by (simp add: set_iter_ok_def listing_order_def)
  have c: "Call (CountDocuments Src ''a'') \<in>
      set (snd (snd (main cpython listing_order 2 never_fails tiny_src [tiny_dst])))"
    by code_simp
  note t = reserved_collections_untouched [OF h, of cpython 2 never_fails tiny_src "[tiny_dst]"]
  from t have a: "Call opn \<in> set (snd (snd (main cpython listing_order 2 never_fails tiny_src [tiny_dst]))) \<Longrightarrow>
      op_collection opn = Some c \<Longrightarrow> \<not> reserved c" for opn c
    by blast
  have "\<not> reserved ''a''" by (rule a [OF c]) simp
  with t h c show ?thesis by simp
qed

section \<open>Runs without failures\<close>

lemma call_no_faults [simp]:
  "call no_faults opn w = (None, w\<lparr>events := events w @ [Call opn]\<rparr>)"
  by (simp add: call_def no_faults_def)

lemma dst_db_log [simp]: "dst_db (log ev w) = dst_db w"
  by (simp add: log_def)






lemma upsert_docs_db_Nil [simp]: "upsert_docs_db db c [] = db"
  by (simp add: upsert_docs_db_def)















section \<open>What the phases compute\<close>


lemma delete_aux_filter:
  "distinct (map fst ds) \<Longrightarrow> AList.delete_aux i ds = filter (\<lambda>d. fst d \<noteq> i) ds"
proof (induction ds)
  case Nil
  then show ?case by simp
next
  case (Cons d ds)
  obtain j p where d: "d = (j, p)" by (cases d)
  have "filter (\<lambda>d. fst d \<noteq> j) ds = ds" using Cons.prems d by (auto simp add: filter_id_conv rev_image_eqI)
  then show ?case using Cons d by auto
qed

lemma ids_distinct_replace_one: "ids_distinct db \<Longrightarrow> ids_distinct (replace_one db c d)"
  by (simp add: ids_distinct_def find_ids_def find_docs_replace_one distinct_update)

lemma ids_distinct_delete_one: "ids_distinct db \<Longrightarrow> ids_distinct (delete_one db c i)"
  by (simp add: ids_distinct_def find_ids_def find_docs_delete_one)

lemma ids_distinct_drop_collection: "ids_distinct db \<Longrightarrow> ids_distinct (drop_collection db c)"
  by (simp add: ids_distinct_def find_ids_def find_docs_drop_collection)

lemma foldl_inv:
  assumes "P a" and "\<And>x a. x \<in> set xs \<Longrightarrow> P a \<Longrightarrow> P (g a x)"
  shows "P (foldl g a xs)"
  using assms by (induction xs arbitrary: a) simp_all

lemma foldl_establish:
  assumes est: "\<And>x a. x \<in> set xs \<Longrightarrow> Q x (g a x)"
    and pres: "\<And>x y a. y \<in> set xs \<Longrightarrow> Q x a \<Longrightarrow> Q x (g a y)"
    and x: "x \<in> set xs"
  shows "Q x (foldl g a xs)"
  using assms
proof (induction xs arbitrary: a)
  case Nil
  then show ?case by simp
next
  case (Cons y ys)
  show ?case
  proof (cases "x \<in> set ys")
    case True
    then show ?thesis using Cons.IH [of "g a y"] Cons.prems(1,2) by simp
  next
    case False
    then have "x = y" using Cons.prems(3) by simp
    then have "Q x (g a y)" using Cons.prems(1) by simp
    then have "Q x (foldl g (g a y) ys)"
      by (rule foldl_inv) (simp add: Cons.prems(2))
    then show ?thesis by simp
  qed
qed

subsection \<open>Upserting the documents of one collection\<close>

lemma find_docs_upsert_docs_db_other:
  "c' \<noteq> c \<Longrightarrow> find_docs (upsert_docs_db db c docs) c' = find_docs db c'"
  unfolding upsert_docs_db_def
  by (rule foldl_inv [where P = "\<lambda>a. find_docs a c' = find_docs db c'"])
    (simp_all add: find_docs_replace_one)

lemma map_of_upsert_docs_db_other:
  "c' \<noteq> c \<Longrightarrow> map_of (upsert_docs_db db c docs) c' = map_of db c'"
  unfolding upsert_docs_db_def
  by (rule foldl_inv [where P = "\<lambda>a. map_of a c' = map_of db c'"])
    (simp_all add: map_of_replace_one_other)





lemma ids_distinct_upsert_docs_db: "ids_distinct db \<Longrightarrow> ids_distinct (upsert_docs_db db c docs)"
  unfolding upsert_docs_db_def
  by (rule foldl_inv) (simp_all add: ids_distinct_replace_one)

subsection \<open>The upsert phase\<close>

lemma find_docs_upsert_db_untouched:
  assumes "reserved c \<or> c \<notin> set (list_collection_names src)"
  shows "find_docs (upsert_db src db) c = find_docs db c"
  unfolding upsert_db_def
proof (rule foldl_inv [where P = "\<lambda>a. find_docs a c = find_docs db c"])
  show "find_docs db c = find_docs db c" by simp
next
  fix x a
  assume x: "x \<in> set (list_collection_names src)" and a: "find_docs a c = find_docs db c"
  show "find_docs (if reserved x then a else upsert_docs_db a x (find_docs src x)) c = find_docs db c"
  proof (cases "reserved x")
    case True
    then show ?thesis using a by simp
  next
    case False
    then have "c \<noteq> x" using assms x by auto
    then show ?thesis using False a by (simp add: find_docs_upsert_docs_db_other)
  qed
qed


lemma ids_distinct_upsert_db: "ids_distinct db \<Longrightarrow> ids_distinct (upsert_db src db)"
  unfolding upsert_db_def
  by (rule foldl_inv) (simp_all add: ids_distinct_upsert_docs_db)



subsection \<open>The reconciliation phase\<close>

lemma delete_missing_steps:
  assumes "distinct (find_ids db c)"
  shows "find_docs (foldl (\<lambda>db i. if i \<in> S then db else delete_one db c i) db js) c' =
     (if c' = c then filter (\<lambda>d. fst d \<in> S \<or> fst d \<notin> set js) (find_docs db c) else find_docs db c')"
  using assms
proof (induction js arbitrary: db)
  case Nil
  then show ?case by simp
next
  case (Cons j js)
  let ?db = "if j \<in> S then db else delete_one db c j"
  have ds: "find_docs ?db c = filter (\<lambda>d. fst d \<in> S \<or> fst d \<noteq> j) (find_docs db c)"
  proof (cases "j \<in> S")
    case True
    then have "filter (\<lambda>d. fst d \<in> S \<or> fst d \<noteq> j) (find_docs db c) = find_docs db c"
      by (auto simp add: filter_id_conv)
    then show ?thesis using True by simp
  next
    case False
    then have "filter (\<lambda>d. fst d \<in> S \<or> fst d \<noteq> j) (find_docs db c) =
        filter (\<lambda>d. fst d \<noteq> j) (find_docs db c)"
      by (intro filter_cong) auto
    then show ?thesis using False Cons.prems
      by (simp add: find_docs_delete_one delete_aux_filter find_ids_def)
  qed
  have other: "c' \<noteq> c \<Longrightarrow> find_docs ?db c' = find_docs db c'"
    by (simp add: find_docs_delete_one)
  have "distinct (find_ids ?db c)"
    using Cons.prems by (simp add: find_ids_def ds distinct_map_filter)
  from Cons.IH [OF this] show ?case
    using other by (auto simp add: ds intro: filter_cong)
qed

lemma find_docs_delete_missing_db:
  assumes "distinct (find_ids db c)"
  shows "find_docs (delete_missing_db src c db) c' =
     (if c' = c then filter (\<lambda>d. fst d \<in> set (find_ids src c)) (find_docs db c) else find_docs db c')"
proof -
  have "filter (\<lambda>d. fst d \<in> S \<or> fst d \<notin> set (find_ids db c)) (find_docs db c) =
      filter (\<lambda>d. fst d \<in> S) (find_docs db c)" for S
    by (rule filter_cong) (auto simp add: find_ids_def)
  then show ?thesis
    using delete_missing_steps [OF assms, of "set (find_ids src c)" "find_ids db c" c']
    by (simp add: delete_missing_db_def)
qed


lemma ids_distinct_delete_missing_db: "ids_distinct db \<Longrightarrow> ids_distinct (delete_missing_db src c db)"
  unfolding delete_missing_db_def
  by (rule foldl_inv) (simp_all add: ids_distinct_delete_one)

lemma find_docs_drops:
  "find_docs (foldl drop_collection db xs) c = (if c \<in> set xs then [] else find_docs db c)"
  by (induction xs arbitrary: db) (auto simp add: find_docs_drop_collection)


lemma ids_distinct_drops: "ids_distinct db \<Longrightarrow> ids_distinct (foldl drop_collection db xs)"
  by (rule foldl_inv) (simp_all add: ids_distinct_drop_collection)

lemma find_docs_reconciles:
  assumes "ids_distinct db"
  shows "find_docs (foldl (\<lambda>db c. delete_missing_db src c db) db ys) c =
     (if c \<in> set ys then filter (\<lambda>d. fst d \<in> set (find_ids src c)) (find_docs db c) else find_docs db c)"
  using assms
proof (induction ys arbitrary: db)
  case Nil
  then show ?case by simp
next
  case (Cons y ys)
  have d: "distinct (find_ids db y)" using Cons.prems by (simp add: ids_distinct_def)
  note IH = Cons.IH [OF ids_distinct_delete_missing_db [OF Cons.prems], of src y]
  show ?case
    using IH find_docs_delete_missing_db [OF d, of src c]
    by (cases "y = c") auto
qed


lemma find_docs_absent:
  "c \<notin> set (list_collection_names db) \<Longrightarrow> find_docs db c = []"
proof -
  assume "c \<notin> set (list_collection_names db)"
  then have "map_of db c = None" by (simp add: list_collection_names_def map_of_eq_None_iff)
  then show ?thesis by (simp add: find_docs_def)
qed

lemma find_docs_reconcile_db:
  assumes "ids_distinct db" and "set_iter_ok set_iter"
  shows "find_docs (reconcile_db set_iter src db) c =
     (if reserved c then find_docs db c
      else if c \<in> set (list_collection_names src)
        then filter (\<lambda>d. fst d \<in> set (find_ids src c)) (find_docs db c)
      else [])"
proof -
  have it: "set (set_iter xs) = set xs" for xs using assms(2) by (simp add: set_iter_ok_def)
  show ?thesis
    using find_docs_absent [of c db]
    by (auto simp add: reconcile_db_def Let_def it find_docs_reconciles
        [OF ids_distinct_drops [OF assms(1)]] find_docs_drops)
qed


subsection \<open>One destination after a run without failures\<close>






lemma sync_db_reserved:
  assumes "set_iter_ok set_iter" and "ids_distinct d" and "reserved c"
  shows "find_docs (sync_db set_iter src d) c = find_docs d c"
  using find_docs_reconcile_db [OF ids_distinct_upsert_db [OF assms(2)] assms(1), of src src c] assms(3)
  by (simp add: sync_db_def find_docs_upsert_db_untouched)



section \<open>Runs without failures: the phases\<close>










section \<open>Ids that Python does not treat as the store does\<close>

text \<open>
  An embedded document as the id of a stale document of the first destination: the in-memory
  branch raises \<open>TypeError\<close> when it looks the id up in the set of the source's ids, no
  handler catches it, the run ends there, the stale document is still in place and the
  second destination has not been touched. The streaming branch asks the store instead and
  completes.
\<close>

lemma unhashable_id_aborts_run:
  "fst (main cpython listing_order 200000 never_fails tiny_src [doc_dst, tiny_dst]) = Some TypeError \<and>
   fst (snd (main cpython listing_order 200000 never_fails tiny_src [doc_dst, tiny_dst])) =
     [[(''a'', [(BDoc [(''tenant'', BInt 1)], ''y''), (BInt 1, ''x'')])], tiny_dst] \<and>
   fst (main cpython listing_order (-1) never_fails tiny_src [doc_dst, tiny_dst]) = None \<and>
   fst (snd (main cpython listing_order (-1) never_fails tiny_src [doc_dst, tiny_dst])) =
     [[(''a'', [(BInt 1, ''x'')])], [(''a'', [(BInt 1, ''x'')]), (''system.js'', [(BInt 8, ''y'')])]]"
  by code_simp

text \<open>
  The id \<open>true\<close> on a stale document where the source has the id \<open>1\<close>: the in-memory branch
  finds \<open>True\<close> in the set \<open>{1}\<close> and keeps the document, the streaming branch deletes it.
\<close>

lemma bool_id_survives_in_memory:
  "fst (main cpython listing_order 200000 never_fails tiny_src [bool_dst]) = None \<and>
   fst (snd (main cpython listing_order 200000 never_fails tiny_src [bool_dst])) =
     [[(''a'', [(BBool True, ''y''), (BInt 1, ''x'')])]] \<and>
   fst (main cpython listing_order (-1) never_fails tiny_src [bool_dst]) = None \<and>
   fst (snd (main cpython listing_order (-1) never_fails tiny_src [bool_dst])) =
     [[(''a'', [(BInt 1, ''x'')])]]"
  by code_simp

section \<open>Strategy equivalence\<close>




section \<open>Convergence and deletion fidelity\<close>










section \<open>The strategy decision\<close>

text \<open>
  C9. The specification's selector chooses \<open>MATERIALIZE\<close> exactly when the count is at most
  the threshold and \<open>STREAM\<close> otherwise, and both phases of the program follow it: once the
  source's collection has been counted (and, in the upsert phase, found not to be empty, an
  empty collection being skipped before any choice), the upsert of a collection is the
  branch that the selector names for the source's count and the threshold, and so is the
  reconciliation of a collection. Counts are never negative.
\<close>

theorem strategy_decision:
  "0 \<le> count_documents src c \<and>
   (select_strategy n thr = MATERIALIZE \<longleftrightarrow> n \<le> thr) \<and>
   (select_strategy n thr = STREAM \<longleftrightarrow> thr < n) \<and>
   (f (CountDocuments Src c) = None \<and> count_documents src c \<noteq> 0 \<longrightarrow>
      upsert_collection thr f src c w =
        try_except is_PyMongoError
          (upsert_with (select_strategy (count_documents src c) thr) f src c
             (log (Log_processing c (count_documents src c)) (snd (call f (CountDocuments Src c) w))))
          (\<lambda>e w. (None, log (Log_error_processing c e) w))) \<and>
   (f (CountDocuments Src c) = None \<and> f (CountDocuments Dst c) = None \<longrightarrow>
      reconcile_collection py thr f src c w =
        reconcile_with (select_strategy (count_documents src c) thr) py f src c
          (log (Log_reconciling c (count_documents src c) (count_documents (dst_db w) c))
             (snd (call f (CountDocuments Dst c) (snd (call f (CountDocuments Src c) w))))))"
  by (simp add: select_strategy_def upsert_with_def reconcile_with_def upsert_collection_def
      reconcile_collection_def count_documents_def call_def Let_def)

theorem strategy_decision_witness:
  "(no_faults :: bson faults) (CountDocuments Src ''a'') = None \<and>
   (no_faults :: bson faults) (CountDocuments Dst ''a'') = None \<and>
   count_documents tiny_src ''a'' = 1 \<and>
   select_strategy 1 200000 = MATERIALIZE \<and> select_strategy 1 0 = STREAM \<and>
   upsert_collection 200000 no_faults tiny_src ''a'' \<lparr>dst_db = tiny_dst, events = []\<rparr> =
     try_except is_PyMongoError
       (upsert_materialize no_faults tiny_src ''a''
          (log (Log_processing ''a'' 1)
             \<lparr>dst_db = tiny_dst, events = [Call (CountDocuments Src ''a'')]\<rparr>))
       (\<lambda>e w. (None, log (Log_error_processing ''a'' e) w)) \<and>
   reconcile_collection cpython 0 no_faults tiny_src ''a'' \<lparr>dst_db = tiny_dst, events = []\<rparr> =
     reconcile_stream no_faults tiny_src ''a''
       (log (Log_reconciling ''a'' 1 1)
          \<lparr>dst_db = tiny_dst,
            events = [Call (CountDocuments Src ''a''), Call (CountDocuments Dst ''a'')]\<rparr>)"
proof -
  have n: "count_documents tiny_src ''a'' = 1" "count_documents tiny_dst ''a'' = 1" by code_simp+
  have f: "(no_faults :: bson faults) opn = None" for opn by (simp add: no_faults_def)
  from strategy_decision [of tiny_src "''a''" 1 200000 no_faults "\<lparr>dst_db = tiny_dst, events = []\<rparr>" cpython]
    strategy_decision [of tiny_src "''a''" 1 0 no_faults "\<lparr>dst_db = tiny_dst, events = []\<rparr>" cpython]
  show ?thesis
    by (simp add: n f upsert_with_def reconcile_with_def)
qed

section \<open>Idempotence\<close>











section \<open>Errors during the reconciliation\<close>




lemma events_log [simp]: "events (log ev w) = events w @ [ev]"
  by (simp add: log_def)










end
